theory Spec2Isabelle
  imports Complex_Main "HOL-Library.Multiset"
begin

section \<open>Conventions of the embedding\<close>

text \<open>
  The Python sources compute on 32-bit floating-point tensors. The embedding idealises
  every tensor entry as a \<^typ>\<open>real\<close>: rounding and accumulation order are not modelled.
  A one-dimensional tensor is a list, a batch of rows a list of lists. Exceptions of the
  Python code are values of \<open>error\<close>; a function that can raise returns
  \<open>error + 'a\<close>, with \<open>Inl\<close> carrying the exception. A float operation whose
  IEEE result is NaN or infinite (a division by zero, the mean of an empty tensor) has
  no real value: the model writes \<open>None\<close> for such an entry, or \<open>Inl NonFinite\<close> where
  the whole result depends on it.
\<close>

datatype source = Labeled | Unlabeled

datatype error =
    StopIteration source
  | KeyError
  | IndexError
  | RuntimeError
  | NonFinite

fun collect :: "(error + 'a) list \<Rightarrow> error + 'a list" where
  "collect [] = Inr []"
| "collect (r # rs) =
     (case r of
        Inl e \<Rightarrow> Inl e
      | Inr x \<Rightarrow> (case collect rs of Inl e \<Rightarrow> Inl e | Inr xs \<Rightarrow> Inr (x # xs)))"

section \<open>PlainStage1.train: the Stage-1 epoch loop\<close>

text \<open>
  \<^verbatim>\<open>
    def train(self):
        best_f1 = 0.
        for epoch in range(self.num_epochs):
            self.train_epoch(epoch)
            val_f1 = self.evaluate(self.valloader)
            if val_f1 > best_f1:
                self.net.update_best()
        self.save_model()
  \<close>
  The validation score of each epoch is an input of the model (a list, one entry per
  epoch). \<open>update_best\<close> snapshots the weights of the current epoch, so the snapshot
  is identified by the epoch number. \<open>save_model\<close> writes the model once.
\<close>

record train_state =
  best_f1 :: real
  best_weights :: "nat option"
  update_epochs :: "nat list"
  save_calls :: nat

definition update_best :: "nat \<Rightarrow> train_state \<Rightarrow> train_state" where
  "update_best epoch st =
     st\<lparr>best_weights := Some epoch, update_epochs := update_epochs st @ [epoch]\<rparr>"

definition save_model :: "train_state \<Rightarrow> train_state" where
  "save_model st = st\<lparr>save_calls := Suc (save_calls st)\<rparr>"

fun train_loop :: "nat \<Rightarrow> real list \<Rightarrow> train_state \<Rightarrow> train_state" where
  "train_loop epoch [] st = st"
| "train_loop epoch (val_f1 # rest) st =
     train_loop (Suc epoch) rest
       (if val_f1 > best_f1 st then update_best epoch st else st)"

definition train :: "real list \<Rightarrow> train_state" where
  "train val_f1s =
     save_model (train_loop 0 val_f1s
       \<lparr>best_f1 = 0, best_weights = None, update_epochs = [], save_calls = 0\<rparr>)"

text \<open>
  The sibling loop \<open>EMAFixMatchStage2.train\<close> (also \<open>LDAMSemiStage2.train\<close>):
  \<^verbatim>\<open>
    best_epoch = 0
    best_acc = 0.
    for epoch in range(self.num_epochs):
        self.train_epoch(epoch)
        val_acc_mac = self.evaluate(self.valloader, ood=False)
        if val_acc_mac > best_acc:
            self.net.update_best()
            best_acc = val_acc_mac
            best_epoch = epoch
    self.save_model()
  \<close>
  Here the best score is assigned, so the snapshot is taken exactly in the epochs that
  beat every earlier epoch. The field \<open>best_f1\<close> holds \<open>best_acc\<close>.
\<close>

fun train_loop_stage2 :: "nat \<Rightarrow> real list \<Rightarrow> train_state \<Rightarrow> train_state" where
  "train_loop_stage2 epoch [] st = st"
| "train_loop_stage2 epoch (val_acc_mac # rest) st =
     train_loop_stage2 (Suc epoch) rest
       (if val_acc_mac > best_f1 st
        then (update_best epoch st)\<lparr>best_f1 := val_acc_mac\<rparr>
        else st)"

definition train_stage2 :: "real list \<Rightarrow> train_state" where
  "train_stage2 val_accs =
     save_model (train_loop_stage2 0 val_accs
       \<lparr>best_f1 = 0, best_weights = None, update_epochs = [], save_calls = 0\<rparr>)"

section \<open>LDAMSemiStage2.train: effective-number class weights\<close>


definition idx :: nat where
  "idx = 0"



section \<open>EMAFixMatchStage2.train_epoch: drawing the batches\<close>

text \<open>
  \<^verbatim>\<open>
    iter_l = iter(loader_l)
    iter_u = iter(loader_u)
    for batch_idx in range(N):
        data_l, labels_l = next(iter_l)
        try:
            (data_u_w, data_u_s), labels_u = next(iter_u)
        except StopIteration:
            iter_u = iter(loader_u)
            (data_u_w, data_u_s), labels_u = next(iter_u)
  \<close>
  A loader is the list of its batches and an iterator the list of the batches it has
  not yet produced; every pass over a loader yields the batches in the order of the list
  (a shuffling loader permutes them from pass to pass, which no property below depends
  on beyond the position within a pass). The error records which iterator raised
  \<open>StopIteration\<close>. What a step does with the two batches is left out: the model
  returns the pairs of batches that the steps of the epoch receive.
\<close>

definition next_u :: "'u list \<Rightarrow> 'u list \<Rightarrow> error + ('u \<times> 'u list)" where
  "next_u loader_u iter_u =
     (case iter_u of
        b # rest \<Rightarrow> Inr (b, rest)
      | [] \<Rightarrow> (case loader_u of
                 b # rest \<Rightarrow> Inr (b, rest)
               | [] \<Rightarrow> Inl (StopIteration Unlabeled)))"

fun draw_batches :: "nat \<Rightarrow> 'l list \<Rightarrow> 'u list \<Rightarrow> 'u list \<Rightarrow> error + ('l \<times> 'u) list" where
  "draw_batches 0 iter_l loader_u iter_u = Inr []"
| "draw_batches (Suc n) iter_l loader_u iter_u =
     (case iter_l of
        [] \<Rightarrow> Inl (StopIteration Labeled)
      | batch_l # iter_l' \<Rightarrow>
          (case next_u loader_u iter_u of
             Inl e \<Rightarrow> Inl e
           | Inr (batch_u, iter_u') \<Rightarrow>
               (case draw_batches n iter_l' loader_u iter_u' of
                  Inl e \<Rightarrow> Inl e
                | Inr ds \<Rightarrow> Inr ((batch_l, batch_u) # ds))))"

definition train_epoch_batches :: "nat \<Rightarrow> 'l list \<Rightarrow> 'u list \<Rightarrow> error + ('l \<times> 'u) list" where
  "train_epoch_batches N loader_l loader_u = draw_batches N loader_l loader_u loader_u"

section \<open>Tensor operations used by the stages\<close>

text \<open>
  \<open>torch.softmax\<close> / \<open>F.softmax\<close> along the class dimension, and \<open>.max(dim=1)\<close>,
  which returns the maximal value of a row with the index of its first occurrence and
  raises on a row without entries.
\<close>

definition softmax :: "real list \<Rightarrow> real list" where
  "softmax z = map (\<lambda>x. exp x / sum_list (map exp z)) z"

fun max_from :: "real \<Rightarrow> nat \<Rightarrow> nat \<Rightarrow> real list \<Rightarrow> real \<times> nat" where
  "max_from best bi i [] = (best, bi)"
| "max_from best bi i (x # xs) =
     (if x > best then max_from x i (Suc i) xs else max_from best bi (Suc i) xs)"

definition row_max :: "real list \<Rightarrow> error + (real \<times> nat)" where
  "row_max xs = (case xs of [] \<Rightarrow> Inl IndexError | x # rest \<Rightarrow> Inr (max_from x 0 1 rest))"

section \<open>The Confidence Gate (PlainStage1.evaluate_epoch, MemoryStage1.deploy_epoch)\<close>

text \<open>
  \<^verbatim>\<open>
    max_probs, preds = F.softmax(logits, dim=1).max(dim=1)
    # Set unconfident prediction to -1
    preds[max_probs < self.args.theta] = -1
  \<close>
\<close>

definition gate_row :: "real \<Rightarrow> real list \<Rightarrow> error + int" where
  "gate_row theta logits =
     (case row_max (softmax logits) of
        Inl e \<Rightarrow> Inl e
      | Inr (max_prob, pred) \<Rightarrow> Inr (if max_prob < theta then -1 else int pred))"

definition confidence_gate :: "real \<Rightarrow> real list list \<Rightarrow> error + int list" where
  "confidence_gate theta logits = collect (map (gate_row theta) logits)"

section \<open>EMAFixMatchStage2.train_epoch: the consistency loss\<close>

text \<open>
  \<^verbatim>\<open>
    # Pseudo labels
    pseudo_label = torch.softmax(logits_u_w.detach_(), dim=-1)
    max_probs, targets_u = torch.max(pseudo_label, dim=-1)
    mask = max_probs.ge(self.args.fixmatch_t).float()
    # calculate loss
    loss_l = self.net.criterion_cls(logits_l, labels_l)
    loss_u = (F.cross_entropy(logits_u_s, targets_u, reduction='none') * mask).mean()
    loss = loss_l + self.args.fixmatch_lambda * loss_u
  \<close>
  \<open>F.cross_entropy\<close> with \<open>reduction='none'\<close> is the negated log-softmax at the target
  class, per example; it raises when a target is not a class index or when the batch
  sizes differ. \<open>.mean()\<close> of an empty tensor is NaN. The labeled loss \<open>loss_l\<close> comes
  from the model provider and is an input here.
\<close>

definition log_softmax :: "real list \<Rightarrow> real list" where
  "log_softmax z = map (\<lambda>x. x - ln (sum_list (map exp z))) z"

definition cross_entropy :: "real list \<Rightarrow> nat \<Rightarrow> error + real" where
  "cross_entropy logits target =
     (if target < length logits then Inr (- (log_softmax logits ! target)) else Inl IndexError)"

definition cross_entropy_none :: "real list list \<Rightarrow> nat list \<Rightarrow> error + real list" where
  "cross_entropy_none logits targets =
     (if length logits \<noteq> length targets then Inl RuntimeError
      else collect (map2 cross_entropy logits targets))"

definition mean :: "real list \<Rightarrow> error + real" where
  "mean xs = (if xs = [] then Inl NonFinite else Inr (sum_list xs / real (length xs)))"

definition ge_mask :: "real \<Rightarrow> real list \<Rightarrow> real list" where
  "ge_mask t max_probs = map (\<lambda>p. if p \<ge> t then 1 else 0) max_probs"

definition loss_u :: "real \<Rightarrow> real list list \<Rightarrow> real list list \<Rightarrow> error + real" where
  "loss_u fixmatch_t logits_u_w logits_u_s =
     (case collect (map (\<lambda>row. row_max (softmax row)) logits_u_w) of
        Inl e \<Rightarrow> Inl e
      | Inr mt \<Rightarrow>
          (let max_probs = map fst mt;
               targets_u = map snd mt;
               mask = ge_mask fixmatch_t max_probs
           in case cross_entropy_none logits_u_s targets_u of
                Inl e \<Rightarrow> Inl e
              | Inr ce \<Rightarrow> mean (map2 (*) ce mask)))"

definition loss :: "real \<Rightarrow> real \<Rightarrow> real \<Rightarrow> real list list \<Rightarrow> real list list \<Rightarrow> error + real" where
  "loss loss_l fixmatch_lambda fixmatch_t logits_u_w logits_u_s =
     (case loss_u fixmatch_t logits_u_w logits_u_s of
        Inl e \<Rightarrow> Inl e
      | Inr lu \<Rightarrow> Inr (loss_l + fixmatch_lambda * lu))"

text \<open>
  The mask as the specification words it: an example is selected when its maximal
  pseudo-probability exceeds the threshold. The rest of the computation is the same.
\<close>

definition exceeds_mask :: "real \<Rightarrow> real list \<Rightarrow> real list" where
  "exceeds_mask t max_probs = map (\<lambda>p. if p > t then 1 else 0) max_probs"

definition loss_u_exceeds :: "real \<Rightarrow> real list list \<Rightarrow> real list list \<Rightarrow> error + real" where
  "loss_u_exceeds fixmatch_t logits_u_w logits_u_s =
     (case collect (map (\<lambda>row. row_max (softmax row)) logits_u_w) of
        Inl e \<Rightarrow> Inl e
      | Inr mt \<Rightarrow>
          (let max_probs = map fst mt;
               targets_u = map snd mt;
               mask = exceeds_mask fixmatch_t max_probs
           in case cross_entropy_none logits_u_s targets_u of
                Inl e \<Rightarrow> Inl e
              | Inr ce \<Rightarrow> mean (map2 (*) ce mask)))"

section \<open>MemoryStage1.deploy_epoch: reachability\<close>

text \<open>
  \<^verbatim>\<open>
    feats = self.net.feature(data)
    logits = self.net.classifier(feats)
    # Reachability
    feats_expand = feats.clone().unsqueeze(1).expand(-1, len(self.centroids), -1)
    centroids_expand = self.centroids.clone().unsqueeze(0).expand(len(data), -1, -1)
    dist_to_centroids = torch.norm(feats_expand - centroids_expand, 2, 2)
    values_nn, labels_nn = torch.sort(dist_to_centroids, 1)
    reachability = (self.args.reachability_scale / values_nn[:, 0]).unsqueeze(1).expand(-1, logits.shape[1])
    logits = reachability * logits
    # Prediction
    max_probs, preds = F.softmax(logits, dim=1).max(dim=1)
    preds[max_probs < self.args.theta] = -1
  \<close>
  The feature vector and the raw logits of an example are inputs: the networks belong to
  the model provider. The computation is row-wise, so the model works on one example;
  the batch is the list of the per-example results. Features and centroid rows both have
  \<open>feature_dim\<close> entries; the model raises on rows of another length (broadcasting of a
  dimension of size 1 is not modelled). \<open>torch.sort\<close> sorts in ascending order.
\<close>

definition norm2 :: "real list \<Rightarrow> real" where
  "norm2 v = sqrt (sum_list (map (\<lambda>x. x ^ 2) v))"

definition dist_to_centroids :: "real list list \<Rightarrow> real list \<Rightarrow> error + real list" where
  "dist_to_centroids centroids feat =
     (if list_all (\<lambda>c. length c = length feat) centroids
      then Inr (map (\<lambda>c. norm2 (map2 (-) feat c)) centroids)
      else Inl RuntimeError)"

definition reachability :: "real \<Rightarrow> real list list \<Rightarrow> real list \<Rightarrow> error + real" where
  "reachability reachability_scale centroids feat =
     (case dist_to_centroids centroids feat of
        Inl e \<Rightarrow> Inl e
      | Inr ds \<Rightarrow>
          (case sort ds of
             [] \<Rightarrow> Inl IndexError
           | d # _ \<Rightarrow> if d = 0 then Inl NonFinite else Inr (reachability_scale / d)))"

definition calibrate_row :: "real \<Rightarrow> real list list \<Rightarrow> real list \<Rightarrow> real list \<Rightarrow> error + real list" where
  "calibrate_row reachability_scale centroids feat logits =
     (case reachability reachability_scale centroids feat of
        Inl e \<Rightarrow> Inl e
      | Inr r \<Rightarrow> Inr (map (\<lambda>l. r * l) logits))"

definition deploy_row :: "real \<Rightarrow> real \<Rightarrow> real list list \<Rightarrow> real list \<times> real list \<Rightarrow> error + (real list \<times> int)" where
  "deploy_row reachability_scale theta centroids ex =
     (case ex of (feat, logits) \<Rightarrow>
        (case calibrate_row reachability_scale centroids feat logits of
           Inl e \<Rightarrow> Inl e
         | Inr logits' \<Rightarrow>
             (case gate_row theta logits' of
                Inl e \<Rightarrow> Inl e
              | Inr pred \<Rightarrow> Inr (logits', pred))))"

definition deploy_epoch :: "real \<Rightarrow> real \<Rightarrow> real list list \<Rightarrow> (real list \<times> real list) list \<Rightarrow> (error + (real list \<times> int)) list" where
  "deploy_epoch reachability_scale theta centroids batch =
     map (deploy_row reachability_scale theta centroids) batch"

section \<open>MemoryStage1.centroids_cal\<close>








section \<open>ModelEMA: the EMA teacher\<close>

text \<open>
  Tensors are mutable objects that several dictionaries can refer to, so they live in
  a store: \<open>heap\<close> maps an address to the entries of the tensor stored there and
  \<open>next_addr\<close> is the first unused address. A module is known by its state
  dictionary, the ordered list of its parameter names with the addresses of their
  tensors (for a module wrapped in \<open>DataParallel\<close> the names carry the prefix
  \<open>module.\<close> and \<open>has_module\<close> holds). \<open>state_dict()\<close> builds a new dictionary
  whose values are the module's own tensors.
\<close>

type_synonym addr = nat

record store =
  heap :: "addr \<Rightarrow> real list"
  next_addr :: addr

record nn_module =
  state_dict :: "(string \<times> addr) list"
  has_module :: bool

record model_ema =
  ema :: nn_module
  decay :: real
  wd :: real
  ema_has_module :: bool

text \<open>
  \<^verbatim>\<open>
    def __init__(self, lr, wdecay, model, decay):
        self.ema = copy.deepcopy(model).cuda()
        self.ema.eval()
        self.decay = decay
        self.wd = lr * wdecay
        self.ema_has_module = hasattr(self.ema, 'module')
        for p in self.ema.parameters():
            p.requires_grad_(False)
  \<close>
  \<open>deepcopy\<close> stores a copy of every tensor at a new address.
\<close>

fun deepcopy :: "(string \<times> addr) list \<Rightarrow> store \<Rightarrow> (string \<times> addr) list \<times> store" where
  "deepcopy [] st = ([], st)"
| "deepcopy ((k, a) # rest) st =
     (case deepcopy rest
             (st\<lparr>heap := (heap st)(next_addr st := heap st a), next_addr := Suc (next_addr st)\<rparr>) of
        (rest', st') \<Rightarrow> ((k, next_addr st) # rest', st'))"

definition ModelEMA :: "real \<Rightarrow> real \<Rightarrow> nn_module \<Rightarrow> real \<Rightarrow> store \<Rightarrow> model_ema \<times> store" where
  "ModelEMA lr wdecay model dec st =
     (case deepcopy (state_dict model) st of
        (sd, st') \<Rightarrow>
          (\<lparr>ema = \<lparr>state_dict = sd, has_module = has_module model\<rparr>,
            decay = dec, wd = lr * wdecay, ema_has_module = has_module model\<rparr>, st'))"

text \<open>
  \<^verbatim>\<open>
    def update(self, model):
        needs_module = hasattr(model, 'module') and not self.ema_has_module
        with torch.no_grad():
            msd = model.state_dict()
            for k, ema_v in self.ema.state_dict().items():
                if needs_module:
                    k = 'module.' + k
                model_v = msd[k].detach().cuda()
                ema_v.copy_(ema_v * self.decay + (1. - self.decay) * model_v)
                # weight decay
                if 'bn' not in k:
                    msd[k] = msd[k] * (1. - self.wd)
  \<close>
  \<open>copy_\<close> overwrites the tensor at the address of \<open>ema_v\<close>. The product
  \<open>msd[k] * (1. - self.wd)\<close> is a new tensor, and the assignment binds the key \<open>k\<close> of the
  local dictionary \<open>msd\<close> to it. The function returns nothing; the model returns the
  local dictionary and the store, so that both can be inspected.
\<close>

fun contains :: "string \<Rightarrow> string \<Rightarrow> bool" where
  "contains sub [] = (sub = [])"
| "contains sub (c # cs) = (take (length sub) (c # cs) = sub \<or> contains sub cs)"

definition state_key :: "bool \<Rightarrow> string \<Rightarrow> string" where
  "state_key needs_module k = (if needs_module then ''module.'' @ k else k)"

fun update_loop ::
  "real \<Rightarrow> real \<Rightarrow> bool \<Rightarrow> (string \<times> addr) list \<Rightarrow> (string \<rightharpoonup> addr) \<Rightarrow> store
     \<Rightarrow> error + ((string \<rightharpoonup> addr) \<times> store)" where
  "update_loop d w needs_module [] msd st = Inr (msd, st)"
| "update_loop d w needs_module ((k0, ema_a) # rest) msd st =
     (let k = state_key needs_module k0 in
      case msd k of
        None \<Rightarrow> Inl KeyError
      | Some model_a \<Rightarrow>
          if length (heap st model_a) \<noteq> length (heap st ema_a) then Inl RuntimeError
          else
            let st1 = st\<lparr>heap := (heap st)(ema_a :=
                          map2 (\<lambda>e m. e * d + (1 - d) * m) (heap st ema_a) (heap st model_a))\<rparr>
            in if \<not> contains ''bn'' k
               then update_loop d w needs_module rest
                      (msd(k \<mapsto> next_addr st1))
                      (st1\<lparr>heap := (heap st1)(next_addr st1 :=
                                    map (\<lambda>x. x * (1 - w)) (heap st1 model_a)),
                            next_addr := Suc (next_addr st1)\<rparr>)
               else update_loop d w needs_module rest msd st1)"

definition update :: "model_ema \<Rightarrow> nn_module \<Rightarrow> store \<Rightarrow> error + ((string \<rightharpoonup> addr) \<times> store)" where
  "update self model st =
     update_loop (decay self) (wd self) (has_module model \<and> \<not> ema_has_module self)
       (state_dict (ema self)) (map_of (state_dict model)) st"

text \<open>The weights of a module, read through its own state dictionary.\<close>

definition weights :: "nn_module \<Rightarrow> store \<Rightarrow> (string \<times> real list) list" where
  "weights m st = map (\<lambda>(k, a). (k, heap st a)) (state_dict m)"

section \<open>CCT_CROP.data_split\<close>

text \<open>
  \<^verbatim>\<open>
    def data_split(self):
        self.data = np.array(self.data)
        self.labels = np.array(self.labels)
        self.bbox = np.array(self.bbox)
        data_sel = np.empty(shape=0)
        labels_sel = np.empty(shape=0)
        bbox_sel = np.empty(shape=(0, self.bbox.shape[1]))
        unique_labels, unique_counts = np.unique(self.labels, return_counts=True)
        for label, counts in zip(unique_labels, unique_counts):
            data_cat = self.data[self.labels == label]
            labels_cat = self.labels[self.labels == label]
            bbox_cat = self.bbox[self.labels == label]
            if counts > self.split:
                np.random.seed(label)
                indices_sel = np.random.choice(np.arange(len(data_cat)), self.split, replace=False)
                data_sel = np.concatenate((data_sel, data_cat[indices_sel]))
                labels_sel = np.concatenate((labels_sel, labels_cat[indices_sel]))
                bbox_sel = np.concatenate((bbox_sel, bbox_cat[indices_sel]))
            else:
                data_sel = np.concatenate((data_sel, data_cat))
                labels_sel = np.concatenate((labels_sel, labels_cat))
                bbox_sel = np.concatenate((bbox_sel, bbox_cat))
        self.data = list(data_sel)
        self.labels = list(labels_sel.astype(int))
        self.bbox = list(bbox_sel)
  \<close>
  The dataset holds three parallel lists. The seeded draw of numpy is a parameter:
  \<open>choice seed n k\<close> stands for \<open>np.random.seed(seed)\<close> followed by
  \<open>np.random.choice(np.arange(n), k, replace=False)\<close>. A boolean mask of another length
  than the array, an index outside the array and \<open>shape[1]\<close> of the array of an empty
  box list raise \<open>IndexError\<close>.
\<close>

record ('a, 'b) dataset =
  data :: "'a list"
  labels :: "nat list"
  bbox :: "'b list"

definition mask_select :: "'a list \<Rightarrow> nat list \<Rightarrow> nat \<Rightarrow> error + 'a list" where
  "mask_select xs ls label =
     (if length xs = length ls
      then Inr (map fst (filter (\<lambda>p. snd p = label) (zip xs ls)))
      else Inl IndexError)"

definition take_indices :: "'a list \<Rightarrow> nat list \<Rightarrow> error + 'a list" where
  "take_indices xs indices =
     (if list_all (\<lambda>i. i < length xs) indices
      then Inr (map (\<lambda>i. xs ! i) indices)
      else Inl IndexError)"

definition select_class ::
  "(nat \<Rightarrow> nat \<Rightarrow> nat \<Rightarrow> nat list) \<Rightarrow> nat \<Rightarrow> ('a, 'b) dataset \<Rightarrow> nat
     \<Rightarrow> error + ('a list \<times> nat list \<times> 'b list)" where
  "select_class choice split ds label =
     (case mask_select (data ds) (labels ds) label of
        Inl e \<Rightarrow> Inl e
      | Inr data_cat \<Rightarrow>
     (case mask_select (labels ds) (labels ds) label of
        Inl e \<Rightarrow> Inl e
      | Inr labels_cat \<Rightarrow>
     (case mask_select (bbox ds) (labels ds) label of
        Inl e \<Rightarrow> Inl e
      | Inr bbox_cat \<Rightarrow>
          if count_list (labels ds) label > split
          then (let indices_sel = choice label (length data_cat) split in
                case take_indices data_cat indices_sel of
                  Inl e \<Rightarrow> Inl e
                | Inr d \<Rightarrow>
               (case take_indices labels_cat indices_sel of
                  Inl e \<Rightarrow> Inl e
                | Inr l \<Rightarrow>
               (case take_indices bbox_cat indices_sel of
                  Inl e \<Rightarrow> Inl e
                | Inr b \<Rightarrow> Inr (d, l, b))))
          else Inr (data_cat, labels_cat, bbox_cat))))"

fun split_loop ::
  "(nat \<Rightarrow> nat \<Rightarrow> nat \<Rightarrow> nat list) \<Rightarrow> nat \<Rightarrow> ('a, 'b) dataset \<Rightarrow> nat list
     \<Rightarrow> 'a list \<times> nat list \<times> 'b list \<Rightarrow> error + ('a list \<times> nat list \<times> 'b list)" where
  "split_loop choice split ds [] sel = Inr sel"
| "split_loop choice split ds (label # rest) (data_sel, labels_sel, bbox_sel) =
     (case select_class choice split ds label of
        Inl e \<Rightarrow> Inl e
      | Inr (d, l, b) \<Rightarrow>
          split_loop choice split ds rest (data_sel @ d, labels_sel @ l, bbox_sel @ b))"

definition data_split ::
  "(nat \<Rightarrow> nat \<Rightarrow> nat \<Rightarrow> nat list) \<Rightarrow> nat \<Rightarrow> ('a, 'b) dataset \<Rightarrow> error + ('a, 'b) dataset" where
  "data_split choice split ds =
     (if bbox ds = [] then Inl IndexError
      else case split_loop choice split ds (sort (remdups (labels ds))) ([], [], []) of
             Inl e \<Rightarrow> Inl e
           | Inr (data_sel, labels_sel, bbox_sel) \<Rightarrow>
               Inr \<lparr>data = data_sel, labels = labels_sel, bbox = bbox_sel\<rparr>)"

text \<open>The samples of a dataset, each with its label and its box.\<close>

definition samples :: "('a, 'b) dataset \<Rightarrow> ('a \<times> nat \<times> 'b) list" where
  "samples ds = zip (data ds) (zip (labels ds) (bbox ds))"

text \<open>The samples of class \<open>c\<close>, in the order of the dataset.\<close>

definition class_samples :: "('a, 'b) dataset \<Rightarrow> nat \<Rightarrow> ('a \<times> nat \<times> 'b) list" where
  "class_samples ds c = filter (\<lambda>t. fst (snd t) = c) (samples ds)"

text \<open>
  The samples that the split is to retain for class \<open>c\<close>: those at the drawn indices
  when the class has more samples than the cap, all of them otherwise.
\<close>

definition selection :: "(nat \<Rightarrow> nat \<Rightarrow> nat \<Rightarrow> nat list) \<Rightarrow> nat \<Rightarrow> ('a, 'b) dataset \<Rightarrow> nat \<Rightarrow> ('a \<times> nat \<times> 'b) list" where
  "selection choice split ds c =
     (if count_list (labels ds) c > split
      then map (\<lambda>i. class_samples ds c ! i) (choice c (count_list (labels ds) c) split)
      else class_samples ds c)"

section \<open>Verified properties\<close>

subsection \<open>Stage-1 epoch loop\<close>

text \<open>
  Claim C7. The specification says the best-weight snapshot is updated exactly in the
  epochs whose validation F1 exceeds the best F1 of all previous epochs. The loop never
  assigns \<open>best_f1\<close>, so it compares every epoch with the initial 0: for the
  validation scores 0.8, 0.5 the snapshot is taken in both epochs and the snapshot
  that is finally saved is the one of the worse epoch 1. The model is saved once.
  The sibling Stage-2 loop, which assigns its best score, keeps the snapshot of epoch 0.
\<close>

theorem train_overwrites_better_snapshot:
  "update_epochs (train [4/5, 1/2]) = [0, 1]
   \<and> best_weights (train [4/5, 1/2]) = Some 1
   \<and> save_calls (train [4/5, 1/2]) = 1
   \<and> update_epochs (train_stage2 [4/5, 1/2]) = [0]
   \<and> best_weights (train_stage2 [4/5, 1/2]) = Some 0"
  by (simp add: train_def train_stage2_def save_model_def update_best_def)

subsection \<open>Effective-number class weights\<close>


lemma sum_list_pos_real:
  "xs \<noteq> [] \<Longrightarrow> \<forall>x \<in> set xs. 0 < x \<Longrightarrow> 0 < sum_list (xs :: real list)"
proof (induction xs)
  case Nil
  then show ?case by simp
next
  case (Cons a xs)
  then show ?case by (cases xs) (auto intro: add_pos_pos)
qed





subsection \<open>Drawing the Stage-2 batches\<close>

lemma next_u_drop:
  assumes "loader_u \<noteq> []" "m \<le> length loader_u"
  shows "next_u loader_u (drop m loader_u) =
         Inr (loader_u ! (m mod length loader_u), drop (Suc (m mod length loader_u)) loader_u)"
proof (cases "m < length loader_u")
  case True
  then have "drop m loader_u = loader_u ! m # drop (Suc m) loader_u"
    by (simp add: Cons_nth_drop_Suc)
  with True show ?thesis by (simp add: next_u_def)
next
  case False
  with assms have m: "m = length loader_u" by simp
  obtain b rest where l: "loader_u = b # rest" using assms(1) by (cases loader_u) auto
  show ?thesis using m by (simp add: next_u_def l)
qed

lemma next_u_never_stops:
  "loader_u \<noteq> [] \<Longrightarrow> \<exists>b it. next_u loader_u iter_u = Inr (b, it)"
  by (auto simp: next_u_def split: list.splits)

lemma draw_batches_not_unlabeled:
  "loader_u \<noteq> [] \<Longrightarrow> draw_batches N iter_l loader_u iter_u \<noteq> Inl (StopIteration Unlabeled)"
proof (induction N arbitrary: iter_l iter_u)
  case 0
  then show ?case by simp
next
  case (Suc N)
  obtain b it where n: "next_u loader_u iter_u = Inr (b, it)"
    using next_u_never_stops[OF Suc.prems] by blast
  show ?case
  proof (cases iter_l)
    case Nil
    then show ?thesis by simp
  next
    case (Cons a il)
    then show ?thesis using Suc.IH[OF Suc.prems, of il it] n
      by (auto split: sum.splits)
  qed
qed

lemma draw_batches_cyclic:
  assumes "loader_u \<noteq> []"
  shows "N \<le> length iter_l \<Longrightarrow> m \<le> length loader_u \<Longrightarrow>
         \<exists>ds. draw_batches N iter_l loader_u (drop m loader_u) = Inr ds \<and> length ds = N \<and>
              (\<forall>k<N. ds ! k = (iter_l ! k, loader_u ! ((m + k) mod length loader_u)))"
proof (induction N arbitrary: iter_l m)
  case 0
  then show ?case by simp
next
  case (Suc N)
  let ?n = "length loader_u"
  have npos: "0 < ?n" using assms by simp
  obtain a il where il: "iter_l = a # il" using Suc.prems(1) by (cases iter_l) auto
  have le: "Suc (m mod ?n) \<le> ?n" using npos by (simp add: Suc_leI)
  have "N \<le> length il" using Suc.prems(1) il by simp
  from Suc.IH[OF this le] obtain ds where
    ds: "draw_batches N il loader_u (drop (Suc (m mod ?n)) loader_u) = Inr ds"
        "length ds = N"
        "\<forall>k<N. ds ! k = (il ! k, loader_u ! ((Suc (m mod ?n) + k) mod ?n))"
    by blast
  have step: "draw_batches (Suc N) iter_l loader_u (drop m loader_u)
              = Inr ((a, loader_u ! (m mod ?n)) # ds)"
    using next_u_drop[OF assms Suc.prems(2)] ds(1) by (simp add: il)
  have idx: "(Suc (m mod ?n) + k) mod ?n = (m + Suc k) mod ?n" for k
    by (metis add_Suc add_Suc_right mod_Suc_eq mod_add_left_eq)
  have "((a, loader_u ! (m mod ?n)) # ds) ! k
        = (iter_l ! k, loader_u ! ((m + k) mod ?n))" if "k < Suc N" for k
  proof (cases k)
    case 0
    then show ?thesis by (simp add: il)
  next
    case (Suc k')
    then have "k' < N" using that by simp
    then show ?thesis using ds(3) idx[of k'] by (simp add: Suc il)
  qed
  then show ?case using step ds(2) by simp
qed

lemma draw_batches_labeled_exhausted:
  "loader_u \<noteq> [] \<Longrightarrow> length iter_l < N \<Longrightarrow>
   draw_batches N iter_l loader_u iter_u = Inl (StopIteration Labeled)"
proof (induction N arbitrary: iter_l iter_u)
  case 0
  then show ?case by simp
next
  case (Suc N)
  obtain b it where n: "next_u loader_u iter_u = Inr (b, it)"
    using next_u_never_stops[OF Suc.prems(1)] by blast
  show ?case
  proof (cases iter_l)
    case Nil
    then show ?thesis by simp
  next
    case (Cons a il)
    then have "length il < N" using Suc.prems(2) by simp
    from Suc.IH[OF Suc.prems(1) this, of it] show ?thesis using n Cons by simp
  qed
qed

text \<open>
  Claim C9. When the unlabeled loader is not empty, no step of the epoch surfaces the
  exhaustion of the unlabeled iterator, whatever the state of the two iterators. When
  the labeled loader has at least \<open>N\<close> batches the epoch draws \<open>N\<close> pairs, and the
  \<open>k\<close>-th unlabeled batch is batch \<open>k mod length loader_u\<close> of the unlabeled loader:
  it wraps around whatever the length of the labeled loader. Only the labeled iterator
  can end the epoch with \<open>StopIteration\<close>.
\<close>

theorem unlabeled_iterator_wraps:
  fixes loader_l iter_l :: "'l list" and loader_u iter_u :: "'u list"
  assumes "loader_u \<noteq> []"
  shows "draw_batches N iter_l loader_u iter_u \<noteq> Inl (StopIteration Unlabeled)
       \<and> (N \<le> length loader_l \<longrightarrow>
            (\<exists>ds. train_epoch_batches N loader_l loader_u = Inr ds \<and> length ds = N \<and>
               (\<forall>k<N. ds ! k = (loader_l ! k, loader_u ! (k mod length loader_u)))))
       \<and> (length loader_l < N \<longrightarrow>
            train_epoch_batches N loader_l loader_u = Inl (StopIteration Labeled))"
proof (intro conjI impI)
  show "draw_batches N iter_l loader_u iter_u \<noteq> Inl (StopIteration Unlabeled)"
    using assms by (rule draw_batches_not_unlabeled)
next
  assume "N \<le> length loader_l"
  then show "\<exists>ds. train_epoch_batches N loader_l loader_u = Inr ds \<and> length ds = N \<and>
           (\<forall>k<N. ds ! k = (loader_l ! k, loader_u ! (k mod length loader_u)))"
    using draw_batches_cyclic[OF assms, of N loader_l 0]
    by (simp add: train_epoch_batches_def)
next
  assume "length loader_l < N"
  then show "train_epoch_batches N loader_l loader_u = Inl (StopIteration Labeled)"
    unfolding train_epoch_batches_def using assms
    by (intro draw_batches_labeled_exhausted)
qed

theorem unlabeled_iterator_wraps_witness:
  "draw_batches 3 [10, 11 :: nat] [''a'', ''b''] [''b''] \<noteq> Inl (StopIteration Unlabeled)
   \<and> (\<exists>ds. train_epoch_batches 3 [10, 11, 12 :: nat] [''a'', ''b''] = Inr ds \<and> length ds = 3 \<and>
         (\<forall>k<3. ds ! k = ([10, 11, 12] ! k, [''a'', ''b''] ! (k mod length [''a'', ''b'']))))
   \<and> train_epoch_batches 3 [10, 11 :: nat] [''a'', ''b''] = Inl (StopIteration Labeled)"
proof -
  have ne: "[''a'', ''b''] \<noteq> []" by simp
  show ?thesis
    using unlabeled_iterator_wraps[OF ne, of 3 "[10, 11 :: nat]" "[''b'']" "[10, 11 :: nat]"]
          unlabeled_iterator_wraps[OF ne, of 3 "[10, 11, 12 :: nat]" "[''b'']" "[10, 11, 12 :: nat]"]
    by simp
qed

subsection \<open>Row maximum and collected results\<close>

lemma max_from_fst: "fst (max_from best bi i xs) = fold max xs best"
  by (induction xs arbitrary: best bi i) (simp_all add: max_def)

lemma max_from_index:
  "bi < length pre \<Longrightarrow> pre ! bi = best \<Longrightarrow>
   snd (max_from best bi (length pre) xs) < length (pre @ xs)
   \<and> (pre @ xs) ! snd (max_from best bi (length pre) xs) = fst (max_from best bi (length pre) xs)"
proof (induction xs arbitrary: pre best bi)
  case Nil
  then show ?case by simp
next
  case (Cons x xs)
  show ?case
  proof (cases "x > best")
    case True
    have "length pre < length (pre @ [x])" "(pre @ [x]) ! length pre = x" by simp_all
    from Cons.IH[OF this] True show ?thesis by simp
  next
    case False
    have "bi < length (pre @ [x])" "(pre @ [x]) ! bi = best"
      using Cons.prems by (simp_all add: nth_append)
    from Cons.IH[OF this] False show ?thesis by simp
  qed
qed

lemma row_max_spec:
  assumes "xs \<noteq> []"
  shows "\<exists>k. row_max xs = Inr (Max (set xs), k) \<and> k < length xs \<and> xs ! k = Max (set xs)"
proof -
  obtain x rest where xs: "xs = x # rest" using assms by (cases xs) auto
  have m: "fst (max_from x 0 1 rest) = Max (set xs)"
    using Max.set_eq_fold[of x rest] by (simp add: max_from_fst xs)
  have "snd (max_from x 0 (length [x]) rest) < length ([x] @ rest)
        \<and> ([x] @ rest) ! snd (max_from x 0 (length [x]) rest) = fst (max_from x 0 (length [x]) rest)"
    by (rule max_from_index) simp_all
  then have "snd (max_from x 0 1 rest) < length xs"
            "xs ! snd (max_from x 0 1 rest) = Max (set xs)"
    using m by (simp_all add: xs)
  moreover have "row_max xs = Inr (fst (max_from x 0 1 rest), snd (max_from x 0 1 rest))"
    by (simp add: row_max_def xs)
  ultimately show ?thesis using m
    by (intro exI[of _ "snd (max_from x 0 1 rest)"]) (auto simp: prod_eq_iff)
qed

lemma collect_map_Inr:
  assumes "\<And>x. x \<in> set xs \<Longrightarrow> f x = Inr (g x)"
  shows "collect (map f xs) = Inr (map g xs)"
  using assms by (induction xs) simp_all

lemma softmax_nonempty: "softmax z \<noteq> [] \<longleftrightarrow> z \<noteq> []"
  by (simp add: softmax_def)

subsection \<open>The Confidence Gate\<close>

text \<open>
  Claim C2. For a batch of logits whose rows have at least one class and for every
  threshold \<open>theta\<close>, the gate returns one prediction per example; each prediction is
  either -1 or an index at which the softmax of the example's logits is maximal; and
  the prediction is -1 exactly when that maximal softmax probability is strictly less
  than \<open>theta\<close>.
\<close>

theorem confidence_gate_contract:
  assumes "\<forall>row \<in> set logits. row \<noteq> []"
  shows "\<exists>preds. confidence_gate theta logits = Inr preds \<and> length preds = length logits \<and>
           (\<forall>i < length logits.
              (preds ! i = -1 \<or>
                 (\<exists>k < length (logits ! i). preds ! i = int k \<and>
                    softmax (logits ! i) ! k = Max (set (softmax (logits ! i)))))
              \<and> (preds ! i = -1 \<longleftrightarrow> Max (set (softmax (logits ! i))) < theta))"
proof -
  have row: "\<exists>p. gate_row theta r = Inr p \<and>
               (p = -1 \<or> (\<exists>k < length r. p = int k \<and> softmax r ! k = Max (set (softmax r))))
               \<and> (p = -1 \<longleftrightarrow> Max (set (softmax r)) < theta)" if "r \<noteq> []" for r
  proof -
    have "softmax r \<noteq> []" using that by (simp add: softmax_def)
    from row_max_spec[OF this] obtain k where
      k: "row_max (softmax r) = Inr (Max (set (softmax r)), k)" "k < length (softmax r)"
         "softmax r ! k = Max (set (softmax r))" by blast
    have len: "length (softmax r) = length r" by (simp add: softmax_def)
    show ?thesis using k len by (auto simp: gate_row_def)
  qed
  define g where "g r = (case gate_row theta r of Inr p \<Rightarrow> p | Inl e \<Rightarrow> 0)" for r
  have "gate_row theta r = Inr (g r)" if "r \<in> set logits" for r
    using row[of r] that assms by (auto simp: g_def)
  then have c: "confidence_gate theta logits = Inr (map g logits)"
    unfolding confidence_gate_def by (rule collect_map_Inr)
  have "(g (logits ! i) = -1 \<or>
                 (\<exists>k < length (logits ! i). g (logits ! i) = int k \<and>
                    softmax (logits ! i) ! k = Max (set (softmax (logits ! i)))))
              \<and> (g (logits ! i) = -1 \<longleftrightarrow> Max (set (softmax (logits ! i))) < theta)"
    if "i < length logits" for i
  proof -
    have "logits ! i \<noteq> []" using assms that by simp
    from row[OF this] show ?thesis by (auto simp: g_def)
  qed
  then show ?thesis using c by auto
qed

theorem confidence_gate_contract_witness:
  "confidence_gate (3/4) [[0, 0], [7 :: real]] = Inr [-1, 0] \<and> (\<exists>preds. confidence_gate (3/4) [[0, 0], [7 :: real]] = Inr preds \<and> length preds = length [[0, 0], [7 :: real]] \<and>
           (\<forall>i < length [[0, 0], [7 :: real]].
              (preds ! i = -1 \<or>
                 (\<exists>k < length ([[0, 0], [7 :: real]] ! i). preds ! i = int k \<and>
                    softmax ([[0, 0], [7 :: real]] ! i) ! k = Max (set (softmax ([[0, 0], [7 :: real]] ! i)))))
              \<and> (preds ! i = -1 \<longleftrightarrow> Max (set (softmax ([[0, 0], [7 :: real]] ! i))) < 3/4)))"
proof -
  have h: "\<forall>row \<in> set [[0, 0], [7 :: real]]. row \<noteq> []" by simp
  have "confidence_gate (3/4) [[0, 0], [7 :: real]] = Inr [-1, 0]"
    by (simp add: confidence_gate_def gate_row_def row_max_def softmax_def)
  then show ?thesis using confidence_gate_contract[OF h, of "3/4"] by blast
qed

subsection \<open>The Stage-2 consistency loss\<close>

text \<open>
  Claim C1, as stated, selects the examples whose maximal pseudo-probability exceeds the
  threshold. The source selects with \<open>max_probs.ge(fixmatch_t)\<close>: an example whose
  confidence equals the threshold is selected. For two classes with equal weak logits
  the confidence is 1/2; with the threshold 1/2 the loss of the source is \<open>ln 2\<close>,
  whereas the loss with the mask of the claim is 0.
\<close>

theorem loss_u_threshold_counterexample:
  "loss_u (1/2) [[0, 0]] [[0, 0]] = Inr (ln 2)
   \<and> loss_u_exceeds (1/2) [[0, 0]] [[0, 0]] = Inr 0
   \<and> ln (2::real) \<noteq> 0"
  by (simp add: loss_u_def loss_u_exceeds_def row_max_def softmax_def ge_mask_def exceeds_mask_def
        cross_entropy_none_def cross_entropy_def log_softmax_def mean_def)

lemma sum_exp_pos: "z \<noteq> [] \<Longrightarrow> 0 < sum_list (map exp (z :: real list))"
  by (rule sum_list_pos_real) auto

lemma log_softmax_nth:
  assumes "k < length z"
  shows "log_softmax z ! k = ln (softmax z ! k)"
proof -
  have "z \<noteq> []" using assms by auto
  then have S: "0 < sum_list (map exp z)" by (rule sum_exp_pos)
  have "ln (exp (z ! k) / sum_list (map exp z)) = z ! k - ln (sum_list (map exp z))"
    using S by (simp add: ln_div)
  then show ?thesis using assms by (simp add: log_softmax_def softmax_def)
qed

lemma collect_map2_Inr:
  assumes "length xs = length ys" "\<And>i. i < length xs \<Longrightarrow> f (xs ! i) (ys ! i) = Inr (g (xs ! i) (ys ! i))"
  shows "collect (map2 f xs ys) = Inr (map2 g xs ys)"
proof -
  have "(case p of (x, y) \<Rightarrow> f x y) = Inr (case p of (x, y) \<Rightarrow> g x y)" if "p \<in> set (zip xs ys)" for p
  proof -
    from that obtain i where "i < length xs" "p = (xs ! i, ys ! i)"
      using assms(1) by (auto simp: in_set_zip)
    then show ?thesis using assms(2) by simp
  qed
  then show ?thesis by (rule collect_map_Inr)
qed

lemma sum_list_map2_nth:
  assumes "length xs = length ys"
  shows "sum_list (map2 f xs ys) = (\<Sum>i<length xs. f (xs ! i) (ys ! i))"
proof -
  have "sum_list (map2 f xs ys) = (\<Sum>i = 0..<length (map2 f xs ys). map2 f xs ys ! i)"
    by (rule sum_list_sum_nth)
  also have "\<dots> = (\<Sum>i<length xs. f (xs ! i) (ys ! i))"
    using assms by (simp add: atLeast0LessThan)
  finally show ?thesis .
qed


lemma pseudo_labels:
  assumes "\<forall>row \<in> set ws. row \<noteq> []"
  shows "\<exists>targets. collect (map (\<lambda>row. row_max (softmax row)) ws)
                     = Inr (zip (map (\<lambda>row. Max (set (softmax row))) ws) targets)
                 \<and> length targets = length ws
                 \<and> (\<forall>i < length ws. targets ! i < length (ws ! i)
                        \<and> softmax (ws ! i) ! (targets ! i) = Max (set (softmax (ws ! i))))"
proof -
  define g where "g r = (case row_max (softmax r) of Inr p \<Rightarrow> snd p | Inl e \<Rightarrow> 0)" for r
  have row: "row_max (softmax r) = Inr (Max (set (softmax r)), g r) \<and> g r < length r
             \<and> softmax r ! g r = Max (set (softmax r))" if "r \<noteq> []" for r
  proof -
    have "softmax r \<noteq> []" using that by (simp add: softmax_def)
    from row_max_spec[OF this] obtain k where
      "row_max (softmax r) = Inr (Max (set (softmax r)), k)" "k < length (softmax r)"
      "softmax r ! k = Max (set (softmax r))" by blast
    then show ?thesis by (simp add: g_def softmax_def)
  qed
  have "row_max (softmax r) = Inr (Max (set (softmax r)), g r)" if "r \<in> set ws" for r
    using row[of r] that assms by simp
  then have "collect (map (\<lambda>row. row_max (softmax row)) ws)
             = Inr (map (\<lambda>r. (Max (set (softmax r)), g r)) ws)"
    by (rule collect_map_Inr)
  moreover have "map (\<lambda>r. (Max (set (softmax r)), g r)) ws
                 = zip (map (\<lambda>row. Max (set (softmax row))) ws) (map g ws)"
    by (simp add: zip_map_map zip_same_conv_map)
  moreover have "\<forall>i < length ws. map g ws ! i < length (ws ! i)
                        \<and> softmax (ws ! i) ! (map g ws ! i) = Max (set (softmax (ws ! i)))"
    using row assms by simp
  ultimately show ?thesis by (intro exI[of _ "map g ws"]) simp
qed

text \<open>
  Claim C1, as amended. For a non-empty unlabeled batch whose weak and strong logits have
  the same shape, the consistency loss is the sum, over the whole batch, of the
  cross-entropy between the strong-view logits and the weak-view argmax pseudo-label of
  the examples whose maximal weak-view pseudo-probability is at least the threshold,
  divided by the batch size; the other examples contribute 0. When every maximal
  pseudo-probability is below the threshold the loss is exactly 0.
\<close>

theorem loss_u_masked_mean:
  assumes len: "length logits_u_s = length logits_u_w"
      and ne: "logits_u_w \<noteq> []"
      and rows: "\<forall>i < length logits_u_w.
                  logits_u_w ! i \<noteq> [] \<and> length (logits_u_s ! i) = length (logits_u_w ! i)"
  shows "\<exists>targets_u. length targets_u = length logits_u_w
           \<and> (\<forall>i < length logits_u_w. targets_u ! i < length (logits_u_w ! i)
                  \<and> softmax (logits_u_w ! i) ! (targets_u ! i) = Max (set (softmax (logits_u_w ! i))))
           \<and> loss_u t logits_u_w logits_u_s =
                 Inr ((\<Sum>i < length logits_u_w.
                         (if Max (set (softmax (logits_u_w ! i))) \<ge> t
                          then - ln (softmax (logits_u_s ! i) ! (targets_u ! i)) else 0))
                      / real (length logits_u_w))
           \<and> ((\<forall>i < length logits_u_w. Max (set (softmax (logits_u_w ! i))) < t)
                \<longrightarrow> loss_u t logits_u_w logits_u_s = Inr 0)"
proof -
  let ?ws = logits_u_w and ?ss = logits_u_s
  let ?n = "length ?ws"
  have "\<forall>row \<in> set ?ws. row \<noteq> []" using rows by (auto simp: in_set_conv_nth)
  from pseudo_labels[OF this] obtain targets where
    col: "collect (map (\<lambda>row. row_max (softmax row)) ?ws)
            = Inr (zip (map (\<lambda>row. Max (set (softmax row))) ?ws) targets)"
    and tl: "length targets = ?n"
    and tg: "\<forall>i < ?n. targets ! i < length (?ws ! i)
                \<and> softmax (?ws ! i) ! (targets ! i) = Max (set (softmax (?ws ! i)))"
    by blast
  let ?mp = "map (\<lambda>row. Max (set (softmax row))) ?ws"
  have fst_mt: "map fst (zip ?mp targets) = ?mp" and snd_mt: "map snd (zip ?mp targets) = targets"
    using tl by simp_all
  define ce where "ce = map2 (\<lambda>l k. - (log_softmax l ! k)) ?ss targets"
  have "cross_entropy (?ss ! i) (targets ! i) = Inr (- (log_softmax (?ss ! i) ! (targets ! i)))"
    if "i < length ?ss" for i
    using that len rows tg by (simp add: cross_entropy_def)
  then have "collect (map2 cross_entropy ?ss targets) = Inr ce"
    unfolding ce_def using len tl by (intro collect_map2_Inr) simp_all
  then have cen: "cross_entropy_none ?ss targets = Inr ce"
    using len tl by (simp add: cross_entropy_none_def)
  have cel: "length ce = ?n" using len tl by (simp add: ce_def)
  have ml: "length (ge_mask t ?mp) = ?n" by (simp add: ge_mask_def)
  have prod_ne: "map2 (*) ce (ge_mask t ?mp) \<noteq> []"
    using ne cel ml by (cases ce; cases "ge_mask t ?mp") auto
  have lu: "loss_u t ?ws ?ss = Inr (sum_list (map2 (*) ce (ge_mask t ?mp)) / real ?n)"
    using col cen prod_ne cel ml
    by (simp add: loss_u_def Let_def fst_mt snd_mt mean_def del: zip_eq_Nil_iff)
  have summand: "ce ! i * ge_mask t ?mp ! i =
        (if Max (set (softmax (?ws ! i))) \<ge> t
         then - ln (softmax (?ss ! i) ! (targets ! i)) else 0)" if "i < ?n" for i
  proof -
    have k: "targets ! i < length (?ss ! i)" using that rows tg by simp
    have "ce ! i = - ln (softmax (?ss ! i) ! (targets ! i))"
      using that len tl log_softmax_nth[OF k] by (simp add: ce_def)
    then show ?thesis using that by (simp add: ge_mask_def)
  qed
  have "sum_list (map2 (*) ce (ge_mask t ?mp)) = (\<Sum>i<length ce. ce ! i * ge_mask t ?mp ! i)"
    using cel ml by (intro sum_list_map2_nth) simp
  also have "\<dots> = (\<Sum>i < ?n. (if Max (set (softmax (?ws ! i))) \<ge> t
                          then - ln (softmax (?ss ! i) ! (targets ! i)) else 0))"
    unfolding cel by (rule sum.cong) (simp_all add: summand)
  finally have s: "sum_list (map2 (*) ce (ge_mask t ?mp)) =
      (\<Sum>i < ?n. (if Max (set (softmax (?ws ! i))) \<ge> t
                          then - ln (softmax (?ss ! i) ! (targets ! i)) else 0))" .
  have formula: "loss_u t ?ws ?ss =
                 Inr ((\<Sum>i < ?n. (if Max (set (softmax (?ws ! i))) \<ge> t
                          then - ln (softmax (?ss ! i) ! (targets ! i)) else 0)) / real ?n)"
    using lu s by simp
  have zero: "loss_u t ?ws ?ss = Inr 0" if "\<forall>i < ?n. Max (set (softmax (?ws ! i))) < t"
  proof -
    have "(\<Sum>i < ?n. (if Max (set (softmax (?ws ! i))) \<ge> t
                          then - ln (softmax (?ss ! i) ! (targets ! i)) else 0)) = 0"
      using that by (intro sum.neutral) auto
    then show ?thesis using formula by simp
  qed
  show ?thesis using tl tg formula zero by (intro exI[of _ targets]) blast
qed

theorem loss_u_masked_mean_witness:
  "loss_u (3/4) [[0, 0]] [[0, 0]] = Inr 0"
proof -
  have m: "Max (set (softmax [0, 0 :: real])) = 1/2" by (simp add: softmax_def)
  have h1: "length [[0, 0 :: real]] = length [[0, 0 :: real]]" by simp
  have h2: "[[0, 0 :: real]] \<noteq> []" by simp
  have h3: "\<forall>i < length [[0, 0 :: real]].
              [[0, 0 :: real]] ! i \<noteq> [] \<and> length ([[0, 0 :: real]] ! i) = length ([[0, 0 :: real]] ! i)"
    by simp
  show ?thesis using loss_u_masked_mean[OF h1 h2 h3, of "3/4"] m by auto
qed

subsection \<open>Reachability calibration\<close>

lemma hd_sort_Min:
  assumes "sort ds = d # rest"
  shows "d = Min (set (ds :: real list))"
proof -
  have s: "sorted (d # rest)" using assms sorted_sort by metis
  have e: "set ds = set (d # rest)" using assms set_sort by metis
  have "Min (set (d # rest)) = d"
    using s by (intro Min_eqI) auto
  then show ?thesis using e by simp
qed

lemma norm2_diff:
  assumes "length c = length feat"
  shows "norm2 (map2 (-) feat c) = sqrt (\<Sum>j<length feat. (feat ! j - c ! j) ^ 2)"
proof -
  have "sum_list (map (\<lambda>x. x ^ 2) (map2 (-) feat c))
        = (\<Sum>j = 0..<length (map (\<lambda>x. x ^ 2) (map2 (-) feat c)). map (\<lambda>x. x ^ 2) (map2 (-) feat c) ! j)"
    by (rule sum_list_sum_nth)
  also have "\<dots> = (\<Sum>j<length feat. (feat ! j - c ! j) ^ 2)"
    using assms by (simp add: atLeast0LessThan)
  finally show ?thesis by (simp add: norm2_def)
qed

text \<open>
  Claim C4. For an example whose feature vector has the dimension of the centroid rows,
  with a non-empty centroid table and a nearest centroid at a distance \<open>d_min\<close> other
  than 0, the calibrated logits are the raw logits, each multiplied by the one scalar
  \<open>reachability_scale / d_min\<close>, where \<open>d_min\<close> is the least Euclidean distance from the
  feature vector to a centroid row. (At distance 0 the float quotient is infinite.)
\<close>

theorem calibrate_row_scales_by_reachability:
  assumes "centroids \<noteq> []"
      and "\<forall>c \<in> set centroids. length c = length feat"
      and "Min ((\<lambda>c. sqrt (\<Sum>j<length feat. (feat ! j - c ! j) ^ 2)) ` set centroids) \<noteq> 0"
  shows "calibrate_row reachability_scale centroids feat logits =
         Inr (map (\<lambda>l. reachability_scale
                        / Min ((\<lambda>c. sqrt (\<Sum>j<length feat. (feat ! j - c ! j) ^ 2)) ` set centroids)
                        * l) logits)"
proof -
  let ?dist = "\<lambda>c. sqrt (\<Sum>j<length feat. (feat ! j - c ! j) ^ 2)"
  have ds: "dist_to_centroids centroids feat = Inr (map ?dist centroids)"
  proof -
    have "map (\<lambda>c. norm2 (map2 (-) feat c)) centroids = map ?dist centroids"
      using assms(2) by (intro map_cong) (simp_all add: norm2_diff)
    moreover have "list_all (\<lambda>c. length c = length feat) centroids"
      using assms(2) by (simp add: list_all_iff)
    ultimately show ?thesis by (simp add: dist_to_centroids_def)
  qed
  have "sort (map ?dist centroids) \<noteq> []"
  proof
    assume "sort (map ?dist centroids) = []"
    then have "length (sort (map ?dist centroids)) = 0" by simp
    then show False using assms(1) by (simp del: sort_key_simps)
  qed
  then obtain d rest where srt: "sort (map ?dist centroids) = d # rest"
    by (cases "sort (map ?dist centroids)") auto
  have d: "d = Min (?dist ` set centroids)"
    using hd_sort_Min[OF srt] by simp
  have "reachability reachability_scale centroids feat = Inr (reachability_scale / d)"
    using ds srt assms(3) d by (simp add: reachability_def)
  then show ?thesis by (simp add: calibrate_row_def d)
qed

theorem calibrate_row_witness:
  "calibrate_row 6 [[0], [5]] [3] [1, 2] = Inr [3, 6]"
proof -
  have h1: "[[0], [5 :: real]] \<noteq> []" by simp
  have h2: "\<forall>c \<in> set [[0], [5 :: real]]. length c = length [3 :: real]" by simp
  have s9: "sqrt 9 = 3" using real_sqrt_abs[of 3] by simp
  have s4: "sqrt 4 = 2" using real_sqrt_abs[of 2] by simp
  have d0: "sqrt (\<Sum>j<length [3 :: real]. ([3] ! j - [0 :: real] ! j) ^ 2) = 3"
    by (simp add: s9)
  have d5: "sqrt (\<Sum>j<length [3 :: real]. ([3] ! j - [5 :: real] ! j) ^ 2) = 2"
    by (simp add: s4)
  have "(\<lambda>c. sqrt (\<Sum>j<length [3 :: real]. ([3] ! j - c ! j) ^ 2)) ` set [[0], [5 :: real]] = {3, 2}"
    unfolding list.set image_insert image_empty d0 d5 ..
  then have m: "Min ((\<lambda>c. sqrt (\<Sum>j<length [3 :: real]. ([3] ! j - c ! j) ^ 2)) ` set [[0], [5 :: real]]) = 2"
    by simp
  have h3: "Min ((\<lambda>c. sqrt (\<Sum>j<length [3 :: real]. ([3] ! j - c ! j) ^ 2)) ` set [[0], [5 :: real]]) \<noteq> 0"
    unfolding m by simp
  show ?thesis
    using calibrate_row_scales_by_reachability[OF h1 h2 h3, of 6 "[1, 2]"] unfolding m by simp
qed

subsection \<open>Centroid calibration\<close>






subsection \<open>The EMA teacher\<close>

lemma state_key_inj: "state_key nm k = state_key nm k' \<longleftrightarrow> k = k'"
  by (simp add: state_key_def)

lemma update_loop_spec:
  assumes "distinct (map fst es)" "distinct (map snd es)"
      and "\<forall>(k, a) \<in> set es. a < next_addr st \<and>
             (\<exists>m. msd (state_key nm k) = Some m \<and> m \<notin> snd ` set es \<and> m < next_addr st
                  \<and> length (heap st m) = length (heap st a))"
  shows "\<exists>msd' st'. update_loop d w nm es msd st = Inr (msd', st')
           \<and> next_addr st \<le> next_addr st'
           \<and> (\<forall>(k, a) \<in> set es. \<forall>m. msd (state_key nm k) = Some m \<longrightarrow>
                  heap st' a = map2 (\<lambda>e s. e * d + (1 - d) * s) (heap st a) (heap st m))
           \<and> (\<forall>x < next_addr st. x \<notin> snd ` set es \<longrightarrow> heap st' x = heap st x)"
  using assms
proof (induction es arbitrary: msd st)
  case Nil
  then show ?case by simp
next
  case (Cons e es)
  obtain k0 a0 where e: "e = (k0, a0)" by (cases e)
  let ?k = "state_key nm k0"
  from Cons.prems(3) e obtain m0 where
    m0: "msd ?k = Some m0" "m0 \<notin> snd ` set (e # es)" "m0 < next_addr st"
        "length (heap st m0) = length (heap st a0)" and a0: "a0 < next_addr st"
    by auto
  define new where "new = map2 (\<lambda>e s. e * d + (1 - d) * s) (heap st a0) (heap st m0)"
  define st1 where "st1 = st\<lparr>heap := (heap st)(a0 := new)\<rparr>"
  define msd2 where "msd2 = (if \<not> contains ''bn'' ?k then msd(?k \<mapsto> next_addr st1) else msd)"
  define st2 where "st2 = (if \<not> contains ''bn'' ?k
       then st1\<lparr>heap := (heap st1)(next_addr st1 := map (\<lambda>x. x * (1 - w)) (heap st1 m0)),
                next_addr := Suc (next_addr st1)\<rparr>
       else st1)"
  have step: "update_loop d w nm (e # es) msd st = update_loop d w nm es msd2 st2"
    using m0(1,4) by (simp add: e Let_def st1_def new_def msd2_def st2_def)
  have n2: "next_addr st \<le> next_addr st2" by (simp add: st2_def st1_def)
  have h2: "heap st2 x = (if x = a0 then new else heap st x)" if "x < next_addr st" for x
    using that by (simp add: st2_def st1_def)
  have a0_notin: "a0 \<notin> snd ` set es" using Cons.prems(2) e by auto
  have k0_notin: "k0 \<notin> fst ` set es" using Cons.prems(1) e by auto
  have m0_ne: "m0 \<noteq> a0" using m0(2) e by auto
  have pre: "\<forall>(k, a) \<in> set es. a < next_addr st2 \<and>
             (\<exists>m. msd2 (state_key nm k) = Some m \<and> m \<notin> snd ` set es \<and> m < next_addr st2
                  \<and> length (heap st2 m) = length (heap st2 a))"
  proof (clarify)
    fix k a assume ka: "(k, a) \<in> set es"
    then have "a < next_addr st" and
      "\<exists>m. msd (state_key nm k) = Some m \<and> m \<notin> snd ` set (e # es) \<and> m < next_addr st
                  \<and> length (heap st m) = length (heap st a)"
      using Cons.prems(3) by auto
    then obtain m where m: "a < next_addr st" "msd (state_key nm k) = Some m"
      "m \<notin> snd ` set (e # es)" "m < next_addr st" "length (heap st m) = length (heap st a)"
      by blast
    have "k \<noteq> k0" using ka k0_notin by force
    then have kk: "state_key nm k \<noteq> ?k" by (simp add: state_key_inj)
    have "a \<noteq> a0" using ka a0_notin by force
    moreover have "m \<noteq> a0" using m(3) e by auto
    ultimately have "heap st2 m = heap st m" "heap st2 a = heap st a"
      using h2 m(1,4) by simp_all
    moreover have "msd2 (state_key nm k) = Some m" using kk m(2) by (simp add: msd2_def)
    moreover have "m \<notin> snd ` set es" using m(3) by auto
    ultimately show "a < next_addr st2 \<and>
             (\<exists>m. msd2 (state_key nm k) = Some m \<and> m \<notin> snd ` set es \<and> m < next_addr st2
                  \<and> length (heap st2 m) = length (heap st2 a))"
      using m n2 by (intro conjI exI[of _ m]) simp_all
  qed
  have d1: "distinct (map fst es)" and d2: "distinct (map snd es)"
    using Cons.prems(1,2) by simp_all
  from Cons.IH[OF d1 d2 pre] obtain msd' st' where
    r: "update_loop d w nm es msd2 st2 = Inr (msd', st')"
       "next_addr st2 \<le> next_addr st'"
       "\<forall>(k, a) \<in> set es. \<forall>m. msd2 (state_key nm k) = Some m \<longrightarrow>
                  heap st' a = map2 (\<lambda>e s. e * d + (1 - d) * s) (heap st2 a) (heap st2 m)"
       "\<forall>x < next_addr st2. x \<notin> snd ` set es \<longrightarrow> heap st' x = heap st2 x"
    by blast
  have frame: "heap st' x = heap st x" if "x < next_addr st" "x \<notin> snd ` set (e # es)" for x
  proof -
    have "x \<noteq> a0" "x \<notin> snd ` set es" using that(2) e by auto
    then show ?thesis using r(4) h2 that(1) n2 by simp
  qed
  have upd: "heap st' a = map2 (\<lambda>e s. e * d + (1 - d) * s) (heap st a) (heap st m)"
    if "(k, a) \<in> set (e # es)" "msd (state_key nm k) = Some m" for k a m
  proof (cases "(k, a) = e")
    case True
    then have ka: "k = k0" "a = a0" using e by simp_all
    have "m = m0" using that(2) m0(1) ka by simp
    moreover have "heap st' a0 = heap st2 a0" using r(4) a0 a0_notin n2 by simp
    ultimately show ?thesis using h2[OF a0] ka by (simp add: new_def)
  next
    case False
    then have ka: "(k, a) \<in> set es" using that(1) by simp
    have "k \<noteq> k0" using ka k0_notin by force
    then have kk: "state_key nm k \<noteq> ?k" by (simp add: state_key_inj)
    then have m2: "msd2 (state_key nm k) = Some m" using that(2) by (simp add: msd2_def)
    have "a < next_addr st \<and>
          (\<exists>m'. msd (state_key nm k) = Some m' \<and> m' \<notin> snd ` set (e # es) \<and> m' < next_addr st
                  \<and> length (heap st m') = length (heap st a))"
      using Cons.prems(3) that(1) by blast
    then obtain m' where m': "a < next_addr st" "msd (state_key nm k) = Some m'"
        "m' \<notin> snd ` set (e # es)" "m' < next_addr st"
      by blast
    have "m' = m" using m'(2) that(2) by simp
    then have am: "a < next_addr st" "m \<notin> snd ` set (e # es)" "m < next_addr st"
      using m' by simp_all
    have "a \<noteq> a0" using ka a0_notin by force
    moreover have "m \<noteq> a0" using am(2) e by auto
    ultimately have "heap st2 m = heap st m" "heap st2 a = heap st a"
      using h2 am by simp_all
    then show ?thesis using r(3) ka m2 by auto
  qed
  have "next_addr st \<le> next_addr st'" using n2 r(2) by simp
  then show ?case using step r(1) frame upd by (intro exI[of _ msd'] exI[of _ st']) auto
qed


lemma map2_decay_one: "length xs = length ys \<Longrightarrow> map2 (\<lambda>e s. e * 1 + (1 - 1) * s) xs ys = (xs :: real list)"
  by (induction xs ys rule: list_induct2) simp_all

lemma map2_decay_zero: "length xs = length ys \<Longrightarrow> map2 (\<lambda>e s. e * 0 + (1 - 0) * s) xs ys = (ys :: real list)"
  by (induction xs ys rule: list_induct2) simp_all

text \<open>
  Claim C5. Let the names of the teacher's state dictionary be distinct, its tensors be
  distinct tensors of the store, and every name have a student tensor of the same size
  that is not a teacher tensor (the teacher is a deep copy). Then \<open>update\<close> returns, and
  it leaves in every teacher tensor \<open>d \<cdot> W_ema + (1 - d) \<cdot> W_student\<close>, entry by entry,
  computed from the values before the call. So with decay 1 the teacher tensor is
  unchanged, whatever the student holds, and with decay 0 it equals the student tensor.
\<close>

theorem ema_update_average:
  assumes "distinct (map fst (state_dict (ema self)))"
      and "distinct (map snd (state_dict (ema self)))"
      and "\<forall>(k, a) \<in> set (state_dict (ema self)). a < next_addr st \<and>
             (\<exists>m. map_of (state_dict model)
                      (state_key (has_module model \<and> \<not> ema_has_module self) k) = Some m
                  \<and> m \<notin> snd ` set (state_dict (ema self)) \<and> m < next_addr st
                  \<and> length (heap st m) = length (heap st a))"
  shows "\<exists>msd' st'. update self model st = Inr (msd', st')
           \<and> (\<forall>(k, a) \<in> set (state_dict (ema self)). \<forall>m.
                  map_of (state_dict model)
                    (state_key (has_module model \<and> \<not> ema_has_module self) k) = Some m \<longrightarrow>
                  heap st' a = map2 (\<lambda>e s. e * decay self + (1 - decay self) * s) (heap st a) (heap st m)
                  \<and> (decay self = 1 \<longrightarrow> heap st' a = heap st a)
                  \<and> (decay self = 0 \<longrightarrow> heap st' a = heap st m))"
proof -
  let ?nm = "has_module model \<and> \<not> ema_has_module self"
  let ?es = "state_dict (ema self)"
  let ?msd = "map_of (state_dict model)"
  from update_loop_spec[OF assms(1,2,3), of "decay self" "wd self"] obtain msd' st' where
    r: "update_loop (decay self) (wd self) ?nm ?es ?msd st = Inr (msd', st')"
       "\<forall>(k, a) \<in> set ?es. \<forall>m. ?msd (state_key ?nm k) = Some m \<longrightarrow>
            heap st' a = map2 (\<lambda>e s. e * decay self + (1 - decay self) * s) (heap st a) (heap st m)"
    by blast
  have "heap st' a = map2 (\<lambda>e s. e * decay self + (1 - decay self) * s) (heap st a) (heap st m)
        \<and> (decay self = 1 \<longrightarrow> heap st' a = heap st a)
        \<and> (decay self = 0 \<longrightarrow> heap st' a = heap st m)"
    if ka: "(k, a) \<in> set ?es" and m: "?msd (state_key ?nm k) = Some m" for k a m
  proof -
    have f: "heap st' a = map2 (\<lambda>e s. e * decay self + (1 - decay self) * s) (heap st a) (heap st m)"
      using r(2) ka m by blast
    have "\<exists>m'. ?msd (state_key ?nm k) = Some m' \<and> length (heap st m') = length (heap st a)"
      using assms(3) ka by blast
    then have len: "length (heap st a) = length (heap st m)" using m by auto
    have one: "heap st' a = heap st a" if "decay self = 1"
      using f that map2_decay_one[OF len] by simp
    have zero: "heap st' a = heap st m" if "decay self = 0"
      using f that map2_decay_zero[OF len] by simp
    show ?thesis using f one zero by blast
  qed
  then show ?thesis using r(1) unfolding update_def
    by (intro exI[of _ msd'] exI[of _ st']) blast
qed

theorem ema_update_average_witness:
  "(\<exists>msd' st'. update \<lparr>ema = \<lparr>state_dict = [(''fc.weight'', 1)], has_module = False\<rparr>,
                        decay = 1, wd = 1/4, ema_has_module = False\<rparr>
                     \<lparr>state_dict = [(''fc.weight'', 0)], has_module = False\<rparr>
                     \<lparr>heap = (\<lambda>_. [])(0 := [4], 1 := [2]), next_addr = 2\<rparr> = Inr (msd', st')
       \<and> heap st' 1 = [2])
   \<and> (\<exists>msd' st'. update \<lparr>ema = \<lparr>state_dict = [(''fc.weight'', 1)], has_module = False\<rparr>,
                        decay = 0, wd = 1/4, ema_has_module = False\<rparr>
                     \<lparr>state_dict = [(''fc.weight'', 0)], has_module = False\<rparr>
                     \<lparr>heap = (\<lambda>_. [])(0 := [4], 1 := [2]), next_addr = 2\<rparr> = Inr (msd', st')
       \<and> heap st' 1 = [4])"
proof -
  let ?E = "\<lambda>d. \<lparr>ema = \<lparr>state_dict = [(''fc.weight'', 1)], has_module = False\<rparr>,
                 decay = d, wd = 1/4, ema_has_module = False\<rparr>"
  let ?M = "\<lparr>state_dict = [(''fc.weight'', 0)], has_module = False\<rparr>"
  let ?S = "\<lparr>heap = (\<lambda>_. [])(0 := [4 :: real], 1 := [2]), next_addr = 2\<rparr>"
  have h1: "distinct (map fst (state_dict (ema (?E d))))"
   and h2: "distinct (map snd (state_dict (ema (?E d))))" for d
    by simp_all
  have h3: "\<forall>(k, a) \<in> set (state_dict (ema (?E d))). a < next_addr ?S \<and>
             (\<exists>m. map_of (state_dict ?M)
                      (state_key (has_module ?M \<and> \<not> ema_has_module (?E d)) k) = Some m
                  \<and> m \<notin> snd ` set (state_dict (ema (?E d))) \<and> m < next_addr ?S
                  \<and> length (heap ?S m) = length (heap ?S a))" for d
    by (simp add: state_key_def)
  have "\<exists>msd' st'. update (?E 1) ?M ?S = Inr (msd', st') \<and> heap st' 1 = [2]"
    using ema_update_average[OF h1 h2 h3, of 1] by (simp add: state_key_def)
  moreover have "\<exists>msd' st'. update (?E 0) ?M ?S = Inr (msd', st') \<and> heap st' 1 = [4]"
    using ema_update_average[OF h1 h2 h3, of 0] by (simp add: state_key_def)
  ultimately show ?thesis by blast
qed

text \<open>
  Claim C6. The specification says that an update multiplies every student parameter
  outside the normalisation layers by \<open>1 - lr \<cdot> wdecay\<close>. The source assigns the product
  to the key of the local dictionary \<open>msd\<close>, which binds the key to a new tensor: the
  tensor of the student is not written. For a student with the one parameter
  \<open>fc.weight\<close>, a teacher built from it with \<open>lr = wdecay = 1/2\<close> (so \<open>wd = 1/4\<close>) and
  decay 0.999, and a student weight of 4 at the time of the update, the student weight
  is still 4 after the update, not 3; the tensor holding 3 is at the new address 2, which
  only the local dictionary refers to. The teacher weight has become 2.002.
\<close>

theorem update_leaves_student_weights:
  "(case ModelEMA (1/2) (1/2) \<lparr>state_dict = [(''fc.weight'', 0)], has_module = False\<rparr> (999/1000)
           \<lparr>heap = (\<lambda>_. [])(0 := [2]), next_addr = 1\<rparr> of
      (self, st) \<Rightarrow>
        (case update self \<lparr>state_dict = [(''fc.weight'', 0)], has_module = False\<rparr>
                (st\<lparr>heap := (heap st)(0 := [4])\<rparr>) of
           Inl e \<Rightarrow> False
         | Inr (msd, st') \<Rightarrow>
             wd self = 1/4
             \<and> weights \<lparr>state_dict = [(''fc.weight'', 0)], has_module = False\<rparr> st'
                 = [(''fc.weight'', [4])]
             \<and> msd ''fc.weight'' = Some 2
             \<and> heap st' 2 = [3]
             \<and> weights (ema self) st' = [(''fc.weight'', [2002/1000])]))"
  by (simp add: ModelEMA_def update_def weights_def state_key_def)

subsection \<open>Per-class cap of the cropped dataset\<close>

lemma mask_views:
  assumes "length d = length l" "length l = length b"
  shows "map fst (filter (\<lambda>p. snd p = c) (zip d l))
           = map fst (filter (\<lambda>t. fst (snd t) = c) (zip d (zip l b)))
       \<and> map fst (filter (\<lambda>p. snd p = c) (zip l l))
           = map (\<lambda>t. fst (snd t)) (filter (\<lambda>t. fst (snd t) = c) (zip d (zip l b)))
       \<and> map fst (filter (\<lambda>p. snd p = c) (zip b l))
           = map (\<lambda>t. snd (snd t)) (filter (\<lambda>t. fst (snd t) = c) (zip d (zip l b)))
       \<and> count_list l c = length (filter (\<lambda>t. fst (snd t) = c) (zip d (zip l b)))"
  using assms by (induction d l b rule: list_induct3) simp_all

lemma zip_views: "zip (map fst T) (zip (map (\<lambda>t. fst (snd t)) T) (map (\<lambda>t. snd (snd t)) T)) = T"
  by (induction T) simp_all

lemma zip_views_nth:
  assumes "\<forall>i \<in> set is. i < length T"
  shows "zip (map (\<lambda>i. map fst T ! i) is)
             (zip (map (\<lambda>i. map (\<lambda>t. fst (snd t)) T ! i) is) (map (\<lambda>i. map (\<lambda>t. snd (snd t)) T ! i) is))
         = map (\<lambda>i. T ! i) is"
  using assms by (induction "is") simp_all

lemma select_class_spec:
  assumes ch: "\<forall>seed n k. k \<le> n \<longrightarrow> length (choice seed n k) = k \<and> distinct (choice seed n k)
                 \<and> (\<forall>i \<in> set (choice seed n k). i < n)"
      and len: "length (data ds) = length (labels ds)" "length (bbox ds) = length (labels ds)"
  shows "\<exists>d l b. select_class choice split ds c = Inr (d, l, b)
           \<and> length d = length l \<and> length b = length l
           \<and> zip d (zip l b) = selection choice split ds c"
proof -
  let ?T = "class_samples ds c"
  have v: "map fst (filter (\<lambda>p. snd p = c) (zip (data ds) (labels ds))) = map fst ?T"
          "map fst (filter (\<lambda>p. snd p = c) (zip (labels ds) (labels ds))) = map (\<lambda>t. fst (snd t)) ?T"
          "map fst (filter (\<lambda>p. snd p = c) (zip (bbox ds) (labels ds))) = map (\<lambda>t. snd (snd t)) ?T"
          "count_list (labels ds) c = length ?T"
    using mask_views[OF len(1) len(2)[symmetric], of c]
    unfolding class_samples_def samples_def by blast+
  have m: "mask_select (data ds) (labels ds) c = Inr (map fst ?T)"
          "mask_select (labels ds) (labels ds) c = Inr (map (\<lambda>t. fst (snd t)) ?T)"
          "mask_select (bbox ds) (labels ds) c = Inr (map (\<lambda>t. snd (snd t)) ?T)"
    unfolding mask_select_def v[symmetric] using len by simp_all
  show ?thesis
  proof (cases "count_list (labels ds) c > split")
    case False
    then have "select_class choice split ds c
               = Inr (map fst ?T, map (\<lambda>t. fst (snd t)) ?T, map (\<lambda>t. snd (snd t)) ?T)"
      by (simp add: select_class_def m)
    moreover have "selection choice split ds c = ?T" using False by (simp add: selection_def)
    ultimately show ?thesis by (simp add: zip_views)
  next
    case True
    let ?is = "choice c (length ?T) split"
    have "split \<le> length ?T" using True v(4) by simp
    then have ok: "\<forall>i \<in> set ?is. i < length ?T" using ch by blast
    then have la: "list_all (\<lambda>i. i < length ?T) ?is" by (simp add: list_all_iff)
    have t: "take_indices (map fst ?T) ?is = Inr (map (\<lambda>i. map fst ?T ! i) ?is)"
            "take_indices (map (\<lambda>t. fst (snd t)) ?T) ?is = Inr (map (\<lambda>i. map (\<lambda>t. fst (snd t)) ?T ! i) ?is)"
            "take_indices (map (\<lambda>t. snd (snd t)) ?T) ?is = Inr (map (\<lambda>i. map (\<lambda>t. snd (snd t)) ?T ! i) ?is)"
      using la by (simp_all add: take_indices_def)
    have "select_class choice split ds c
               = Inr (map (\<lambda>i. map fst ?T ! i) ?is,
                      map (\<lambda>i. map (\<lambda>t. fst (snd t)) ?T ! i) ?is,
                      map (\<lambda>i. map (\<lambda>t. snd (snd t)) ?T ! i) ?is)"
      using True t by (simp add: select_class_def m Let_def)
    moreover have "selection choice split ds c = map (\<lambda>i. ?T ! i) ?is"
      using True v(4) by (simp add: selection_def)
    ultimately show ?thesis using zip_views_nth[OF ok] by simp
  qed
qed


lemma split_loop_spec:
  assumes ch: "\<forall>seed n k. k \<le> n \<longrightarrow> length (choice seed n k) = k \<and> distinct (choice seed n k)
                 \<and> (\<forall>i \<in> set (choice seed n k). i < n)"
      and len: "length (data ds) = length (labels ds)" "length (bbox ds) = length (labels ds)"
  shows "length d0 = length l0 \<Longrightarrow> length b0 = length l0 \<Longrightarrow>
         \<exists>d l b. split_loop choice split ds us (d0, l0, b0) = Inr (d, l, b)
           \<and> length d = length l \<and> length b = length l
           \<and> zip d (zip l b) = zip d0 (zip l0 b0) @ concat (map (selection choice split ds) us)"
proof (induction us arbitrary: d0 l0 b0)
  case Nil
  then show ?case by simp
next
  case (Cons c us)
  from select_class_spec[OF ch len, of split c] obtain d l b where
    s: "select_class choice split ds c = Inr (d, l, b)" "length d = length l" "length b = length l"
       "zip d (zip l b) = selection choice split ds c"
    by blast
  have l1: "length (d0 @ d) = length (l0 @ l)" and l2: "length (b0 @ b) = length (l0 @ l)"
    using Cons.prems s(2,3) by simp_all
  from Cons.IH[OF l1 l2] obtain d' l' b' where
    r: "split_loop choice split ds us (d0 @ d, l0 @ l, b0 @ b) = Inr (d', l', b')"
       "length d' = length l'" "length b' = length l'"
       "zip d' (zip l' b') = zip (d0 @ d) (zip (l0 @ l) (b0 @ b))
                             @ concat (map (selection choice split ds) us)"
    by blast
  have "zip (d0 @ d) (zip (l0 @ l) (b0 @ b)) = zip d0 (zip l0 b0) @ zip d (zip l b)"
    using Cons.prems s(2,3) by simp
  then have "zip d' (zip l' b') = zip d0 (zip l0 b0)
                 @ concat (map (selection choice split ds) (c # us))"
    using r(4) s(4) by simp
  moreover have "split_loop choice split ds (c # us) (d0, l0, b0) = Inr (d', l', b')"
    using s(1) r(1) by simp
  ultimately show ?case using r(2,3) by blast
qed

lemma selection_props:
  assumes ch: "\<forall>seed n k. k \<le> n \<longrightarrow> length (choice seed n k) = k \<and> distinct (choice seed n k)
                 \<and> (\<forall>i \<in> set (choice seed n k). i < n)"
      and cnt: "count_list (labels ds) c = length (class_samples ds c)"
  shows "length (selection choice split ds c) = min (count_list (labels ds) c) split"
    and "\<forall>t \<in> set (selection choice split ds c). fst (snd t) = c"
    and "mset (selection choice split ds c) \<subseteq># mset (class_samples ds c)"
proof -
  let ?T = "class_samples ds c"
  let ?is = "choice c (count_list (labels ds) c) split"
  have lab: "\<forall>t \<in> set ?T. fst (snd t) = c" by (simp add: class_samples_def)
  have chc: "length ?is = split \<and> distinct ?is \<and> (\<forall>i \<in> set ?is. i < length ?T)"
    if "count_list (labels ds) c > split"
  proof -
    have "split \<le> count_list (labels ds) c" using that by simp
    then have "length ?is = split \<and> distinct ?is
               \<and> (\<forall>i \<in> set ?is. i < count_list (labels ds) c)"
      using ch by blast
    then show ?thesis using cnt by simp
  qed
  show "length (selection choice split ds c) = min (count_list (labels ds) c) split"
    using chc cnt by (simp add: selection_def)
  show "\<forall>t \<in> set (selection choice split ds c). fst (snd t) = c"
  proof (cases "count_list (labels ds) c > split")
    case True
    then have "\<forall>i \<in> set ?is. i < length ?T" using chc by blast
    then show ?thesis using True lab by (simp add: selection_def)
  next
    case False
    then show ?thesis using lab by (simp add: selection_def)
  qed
  show "mset (selection choice split ds c) \<subseteq># mset ?T"
  proof (cases "count_list (labels ds) c > split")
    case True
    then have d: "distinct ?is" and b: "set ?is \<subseteq> {0..<length ?T}" using chc by auto
    have "mset ?is = mset_set (set ?is)" using d by (simp add: mset_set_set)
    also have "\<dots> \<subseteq># mset_set {0..<length ?T}"
      using b by (intro subset_imp_msubset_mset_set) simp_all
    also have "\<dots> = mset [0..<length ?T]" by (simp add: mset_upt)
    finally have "image_mset (\<lambda>i. ?T ! i) (mset ?is) \<subseteq># image_mset (\<lambda>i. ?T ! i) (mset [0..<length ?T])"
      by (rule image_mset_subseteq_mono)
    moreover have "image_mset (\<lambda>i. ?T ! i) (mset [0..<length ?T]) = mset ?T"
      using map_nth[of ?T] by (metis mset_map)
    ultimately show ?thesis using True by (simp add: selection_def)
  next
    case False
    then show ?thesis by (simp add: selection_def)
  qed
qed

lemma filter_concat_selection:
  assumes "distinct us" "\<And>c. \<forall>t \<in> set (sel c). fst (snd t) = c"
  shows "filter (\<lambda>t. fst (snd t) = c) (concat (map sel us)) = (if c \<in> set us then sel c else [])"
  using assms(1)
proof (induction us)
  case Nil
  then show ?case by simp
next
  case (Cons u us)
  have fu: "filter (\<lambda>t. fst (snd t) = c) (sel u) = (if u = c then sel u else [])"
    using assms(2)[of u] by (auto simp: filter_empty_conv filter_id_conv)
  show ?case using Cons fu by auto
qed

lemma mset_filter_class_split:
  "c \<notin> S \<Longrightarrow> mset (filter (\<lambda>t. f t = c \<or> f t \<in> S) T)
       = mset (filter (\<lambda>t. f t = c) T) + mset (filter (\<lambda>t. f t \<in> S) T)"
  by (induction T) auto

lemma mset_concat_selection:
  assumes "distinct us" "\<And>c. mset (sel c) \<subseteq># mset (filter (\<lambda>t. f t = c) T)"
  shows "mset (concat (map sel us)) \<subseteq># mset (filter (\<lambda>t. f t \<in> set us) T)"
  using assms(1)
proof (induction us)
  case Nil
  then show ?case by simp
next
  case (Cons u us)
  have "mset (concat (map sel (u # us))) = mset (sel u) + mset (concat (map sel us))" by simp
  also have "\<dots> \<subseteq># mset (filter (\<lambda>t. f t = u) T) + mset (filter (\<lambda>t. f t \<in> set us) T)"
    using assms(2)[of u] Cons by (intro subset_mset.add_mono) simp_all
  also have "\<dots> = mset (filter (\<lambda>t. f t = u \<or> f t \<in> set us) T)"
  proof -
    have "u \<notin> set us" using Cons.prems by simp
    then show ?thesis by (rule mset_filter_class_split[symmetric])
  qed
  finally show ?case by simp
qed


lemma count_list_map_filter: "count_list (map f xs) c = length (filter (\<lambda>t. f t = c) xs)"
  by (induction xs) simp_all

lemma map_label_zip:
  "length d = length l \<Longrightarrow> length b = length l \<Longrightarrow>
   map (\<lambda>t. fst (snd t)) (zip d (zip l b)) = l"
proof (induction l arbitrary: d b)
  case Nil
  then show ?case by simp
next
  case (Cons x l)
  then obtain d0 d' b0 b' where "d = d0 # d'" "b = b0 # b'"
    by (cases d; cases b) auto
  then show ?case using Cons by simp
qed

text \<open>
  Claim C10. Let the dataset be non-empty with its three lists of equal length, and let
  the seeded draw return \<open>k\<close> distinct indices below \<open>n\<close> whenever \<open>k \<le> n\<close>. Then
  \<open>data_split\<close> returns a dataset in which every class has exactly the minimum of its
  original count and the cap; the three lists have equal length; every retained sample
  is a sample of the original dataset with its own label and box, none more often than
  before; a class with more samples than the cap retains exactly its samples at the
  indices drawn with the class label as seed, and any other class retains all of its
  samples in their order.
\<close>

theorem data_split_caps_each_class:
  assumes ch: "\<forall>seed n k. k \<le> n \<longrightarrow> length (choice seed n k) = k \<and> distinct (choice seed n k)
                 \<and> (\<forall>i \<in> set (choice seed n k). i < n)"
      and len: "length (data ds) = length (labels ds)" "length (bbox ds) = length (labels ds)"
      and ne: "labels ds \<noteq> []"
  shows "\<exists>ds'. data_split choice split ds = Inr ds'
           \<and> (\<forall>c. count_list (labels ds') c = min (count_list (labels ds) c) split)
           \<and> length (data ds') = length (labels ds') \<and> length (bbox ds') = length (labels ds')
           \<and> mset (samples ds') \<subseteq># mset (samples ds)
           \<and> (\<forall>c \<in> set (labels ds).
                 class_samples ds' c =
                   (if count_list (labels ds) c > split
                    then map (\<lambda>i. class_samples ds c ! i) (choice c (count_list (labels ds) c) split)
                    else class_samples ds c))"
proof -
  let ?us = "sort (remdups (labels ds))"
  let ?sel = "selection choice split ds"
  have dus: "distinct ?us" by simp
  have sus: "set ?us = set (labels ds)" by simp
  have cnt: "count_list (labels ds) c = length (class_samples ds c)" for c
    using mask_views[OF len(1) len(2)[symmetric], of c]
    unfolding class_samples_def samples_def by blast
  have lab: "\<forall>t \<in> set (?sel c). fst (snd t) = c" for c
    using selection_props(2)[OF ch cnt] .
  have sub: "mset (?sel c) \<subseteq># mset (filter (\<lambda>t. fst (snd t) = c) (samples ds))" for c
    using selection_props(3)[OF ch cnt, of split c] by (simp add: class_samples_def)
  have sl: "length (?sel c) = min (count_list (labels ds) c) split" for c
    using selection_props(1)[OF ch cnt] .
  have "length ([] :: 'a list) = length ([] :: nat list)"
       "length ([] :: 'b list) = length ([] :: nat list)" by simp_all
  from split_loop_spec[OF ch len this, of split ?us] obtain d l b where
    r: "split_loop choice split ds ?us ([], [], []) = Inr (d, l, b)"
       "length d = length l" "length b = length l"
       "zip d (zip l b) = concat (map ?sel ?us)"
    by auto
  define ds' where "ds' = \<lparr>data = d, labels = l, bbox = b\<rparr>"
  have bne: "bbox ds \<noteq> []" using ne len(2) by auto
  have res: "data_split choice split ds = Inr ds'"
    using r(1) bne by (simp add: data_split_def ds'_def)
  have smp: "samples ds' = concat (map ?sel ?us)"
    using r(4) by (simp add: samples_def ds'_def)
  have cls: "class_samples ds' c = (if c \<in> set (labels ds) then ?sel c else [])" for c
    unfolding class_samples_def smp
    using filter_concat_selection[OF dus lab, of c] sus by simp
  have lbl: "labels ds' = map (\<lambda>t. fst (snd t)) (samples ds')"
    using map_label_zip[OF r(2,3)] by (simp add: samples_def ds'_def)
  have c1: "count_list (labels ds') c = min (count_list (labels ds) c) split" for c
  proof -
    have "count_list (labels ds') c = length (class_samples ds' c)"
      unfolding lbl class_samples_def by (rule count_list_map_filter)
    also have "\<dots> = (if c \<in> set (labels ds) then min (count_list (labels ds) c) split else 0)"
      using sl by (simp add: cls)
    also have "\<dots> = min (count_list (labels ds) c) split"
      by (simp add: count_list_0_iff)
    finally show ?thesis .
  qed
  have c2: "length (data ds') = length (labels ds')" "length (bbox ds') = length (labels ds')"
    using r(2,3) by (simp_all add: ds'_def)
  have c3: "mset (samples ds') \<subseteq># mset (samples ds)"
  proof -
    have "mset (samples ds') \<subseteq># mset (filter (\<lambda>t. fst (snd t) \<in> set ?us) (samples ds))"
      unfolding smp using dus sub by (rule mset_concat_selection)
    also have "\<dots> \<subseteq># mset (samples ds)" by simp
    finally show ?thesis .
  qed
  have c4: "class_samples ds' c =
                   (if count_list (labels ds) c > split
                    then map (\<lambda>i. class_samples ds c ! i) (choice c (count_list (labels ds) c) split)
                    else class_samples ds c)" if "c \<in> set (labels ds)" for c
    using that by (simp add: cls selection_def)
  show ?thesis using res c1 c2 c3 c4 by (intro exI[of _ ds']) blast
qed

theorem data_split_caps_each_class_witness:
  "data_split (\<lambda>seed n k. [0..<k]) 2
      \<lparr>data = [''a'', ''b'', ''c'', ''d''], labels = [1, 0, 1, 1], bbox = [10, 11, 12, 13 :: nat]\<rparr>
    = Inr \<lparr>data = [''b'', ''a'', ''c''], labels = [0, 1, 1], bbox = [11, 10, 12]\<rparr>"
proof -
  let ?ds = "\<lparr>data = [''a'', ''b'', ''c'', ''d''], labels = [1, 0, 1, 1], bbox = [10, 11, 12, 13 :: nat]\<rparr>"
  have h1: "\<forall>seed n k. k \<le> n \<longrightarrow> length ((\<lambda>(seed::nat) (n::nat) k. [0..<k]) seed n k) = k
               \<and> distinct ((\<lambda>(seed::nat) (n::nat) k. [0..<k]) seed n k)
               \<and> (\<forall>i \<in> set ((\<lambda>(seed::nat) (n::nat) k. [0..<k]) seed n k). i < n)"
    by simp
  have h2: "length (data ?ds) = length (labels ?ds)" by simp
  have h3: "length (bbox ?ds) = length (labels ?ds)" by simp
  have h4: "labels ?ds \<noteq> []" by simp
  from data_split_caps_each_class[OF h1 h2 h3 h4, of 2] obtain ds' where
    t: "data_split (\<lambda>seed n k. [0..<k]) 2 ?ds = Inr ds'" by blast
  have u: "[0..<2] = [0, Suc 0]" by (simp add: upt_conv_Cons)
  show ?thesis using t
    by (simp add: data_split_def select_class_def mask_select_def take_indices_def
          sort_key_def Let_def u)
qed

end
